theory Spec2Isabelle
  imports Main "HOL-Library.Word"
begin

section \<open>Strings of the host language\<close>

text \<open>
  A JavaScript string is a sequence of 16-bit code units; \<open>length\<close>, \<open>slice\<close>, \<open>trim\<close>
  and the regular expressions of the parser all work on code units.
\<close>

type_synonym unit16 = "16 word"
type_synonym jstring = "unit16 list"
type_synonym byte = "8 word"

text \<open>An ASCII literal of the source, written as an Isabelle string.\<close>

definition lit :: "string \<Rightarrow> jstring" where
  "lit s = map (\<lambda>c. of_nat (of_char c)) s"

text \<open>
  The code units that \<open>String.prototype.trim\<close> strips and that \<open>\s\<close> matches:
  WhiteSpace and LineTerminator of ECMAScript.
\<close>

definition isLineTerminator :: "unit16 \<Rightarrow> bool" where
  "isLineTerminator c = (c = 0x0A \<or> c = 0x0D \<or> c = 0x2028 \<or> c = 0x2029)"

definition isWhiteSpace :: "unit16 \<Rightarrow> bool" where
  "isWhiteSpace c =
     (c = 0x09 \<or> c = 0x0A \<or> c = 0x0B \<or> c = 0x0C \<or> c = 0x0D \<or> c = 0x20 \<or> c = 0xA0
      \<or> c = 0x1680 \<or> (0x2000 \<le> c \<and> c \<le> 0x200A) \<or> c = 0x2028 \<or> c = 0x2029
      \<or> c = 0x202F \<or> c = 0x205F \<or> c = 0x3000 \<or> c = 0xFEFF)"

definition trim :: "jstring \<Rightarrow> jstring" where
  "trim s = rev (dropWhile isWhiteSpace (rev (dropWhile isWhiteSpace s)))"

text \<open>
  \<open>toLowerCase\<close>, on the ASCII letters. The program compares the lowered text only with
  ASCII literals (\<open>list\<close>, \<open>/list\<close>, the four prefixes and \<open>/\<close>), by equality or as a
  prefix. Unicode lowers only two characters outside ASCII to anything in ASCII: U+212A
  to \<open>k\<close>, which is in none of the literals, and U+0130 to \<open>i\<close> followed by U+0307, which
  breaks the literal it would complete. So leaving the code units outside ASCII alone
  changes no comparison.
\<close>

definition lowerUnit :: "unit16 \<Rightarrow> unit16" where
  "lowerUnit c = (if 0x41 \<le> c \<and> c \<le> 0x5A then c + 0x20 else c)"

definition toLowerCase :: "jstring \<Rightarrow> jstring" where
  "toLowerCase s = map lowerUnit s"

text \<open>
  \<open>s.split(sep)\<close> for a separator of one code unit: never an empty array.
  \<open>parts.join(sep)\<close> puts the separator back between the parts.
\<close>

fun split :: "'a \<Rightarrow> 'a list \<Rightarrow> 'a list list" where
  "split sep [] = [[]]"
| "split sep (c # cs) =
     (if c = sep then [] # split sep cs
      else (case split sep cs of
              [] \<Rightarrow> [[c]]
            | p # ps \<Rightarrow> (c # p) # ps))"

fun join :: "'a \<Rightarrow> 'a list list \<Rightarrow> 'a list" where
  "join sep [] = []"
| "join sep [p] = p"
| "join sep (p # q # ps) = p @ sep # join sep (q # ps)"

definition startsWith :: "jstring \<Rightarrow> jstring \<Rightarrow> bool" where
  "startsWith s p = (take (length p) s = p)"

section \<open>The regular expressions of the parser\<close>

text \<open>
  All four have the shape \<open>/^word:\s*(.+)/\<close> with the flag \<open>i\<close>, two of them with the
  flag \<open>s\<close> as well. Without the flag \<open>u\<close>, case-insensitive matching compares
  canonicalised code units: the simple upper case, except that no code unit outside ASCII
  is canonicalised into ASCII. Against the ASCII characters of these patterns that is
  upper-casing of \<open>a\<close> to \<open>z\<close>.
\<close>

definition canonicalize :: "unit16 \<Rightarrow> unit16" where
  "canonicalize c = (if 0x61 \<le> c \<and> c \<le> 0x7A then c - 0x20 else c)"

text \<open>The literal part: the rest of the input after it, when it matches.\<close>

fun matchLiteral :: "jstring \<Rightarrow> jstring \<Rightarrow> jstring option" where
  "matchLiteral [] s = Some s"
| "matchLiteral (p # ps) [] = None"
| "matchLiteral (p # ps) (c # cs) =
     (if canonicalize p = canonicalize c then matchLiteral ps cs else None)"

text \<open>\<open>.\<close> matches every code unit with the flag \<open>s\<close>, every one but a line terminator without.\<close>

definition dotMatches :: "bool \<Rightarrow> unit16 \<Rightarrow> bool" where
  "dotMatches dotAll c = (dotAll \<or> \<not> isLineTerminator c)"

text \<open>\<open>(.+)\<close> at the end of the pattern: the longest run, of one code unit at least.\<close>

definition dotPlus :: "bool \<Rightarrow> jstring \<Rightarrow> jstring option" where
  "dotPlus dotAll s =
     (let r = takeWhile (dotMatches dotAll) s in if r = [] then None else Some r)"

text \<open>
  \<open>\s*(.+)\<close>: the star is greedy and backtracks. It takes a white space and goes on;
  when the rest cannot match, it gives that white space back to \<open>(.+)\<close>.
\<close>

fun spacesThenDotPlus :: "bool \<Rightarrow> jstring \<Rightarrow> jstring option" where
  "spacesThenDotPlus dotAll [] = None"
| "spacesThenDotPlus dotAll (c # cs) =
     (if isWhiteSpace c then
        (case spacesThenDotPlus dotAll cs of
           Some r \<Rightarrow> Some r
         | None \<Rightarrow> dotPlus dotAll (c # cs))
      else dotPlus dotAll (c # cs))"

text \<open>\<open>s.match(/^word:\s*(.+)/i)\<close>: group 1 of the match, \<open>None\<close> for \<open>null\<close>.\<close>

definition matchPrefix :: "bool \<Rightarrow> jstring \<Rightarrow> jstring \<Rightarrow> jstring option" where
  "matchPrefix dotAll word s =
     (case matchLiteral word s of
        None \<Rightarrow> None
      | Some rest \<Rightarrow> spacesThenDotPlus dotAll rest)"

section \<open>The intent parser\<close>

datatype ParsedMessage =
    List
  | Scan jstring "jstring option"
  | Text jstring
  | Get jstring
  | File jstring
  | Unknown

text \<open>
  What a \<open>throw\<close> carries: an \<open>Error\<close> or a \<open>TypeError\<close> with its message (both are
  instances of \<open>Error\<close>), or a value that is not an \<open>Error\<close>.
\<close>

datatype thrown = Error jstring | TypeError jstring | OtherThrown

text \<open>\<open>if (!path.startsWith('/')) path = '/' + path\<close>\<close>

definition withLeadingSlash :: "jstring \<Rightarrow> jstring" where
  "withLeadingSlash path = (if \<not> startsWith path (lit ''/'') then lit ''/'' @ path else path)"

text \<open>
  \<open>parseMessage\<close>. \<open>lines[0].trim()\<close> would throw a TypeError on an empty array, so the
  result is a sum and that branch is written out.
\<close>

definition parseMessage :: "jstring \<Rightarrow> thrown + ParsedMessage" where
  "parseMessage text =
     (let trimmed = trim text;
          lower = toLowerCase trimmed
      in if lower = lit ''list'' \<or> lower = lit ''/list'' then Inr List
         else case matchPrefix True (lit ''scan:'') trimmed of
           Some afterPrefix \<Rightarrow>
             (case split 0x0A afterPrefix of
                [] \<Rightarrow> Inl (TypeError (lit ''Cannot read properties of undefined''))
              | line0 # others \<Rightarrow>
                  (let prompt = trim line0;
                       content = trim (join 0x0A others)
                   in Inr (Scan prompt (if content = [] then None else Some content))))
         | None \<Rightarrow>
         (case matchPrefix True (lit ''text:'') trimmed of
           Some m \<Rightarrow> Inr (Text (trim m))
         | None \<Rightarrow>
         (case matchPrefix False (lit ''get:'') trimmed of
           Some m \<Rightarrow> Inr (Get (withLeadingSlash (trim m)))
         | None \<Rightarrow>
         (case matchPrefix False (lit ''file:'') trimmed of
           Some m \<Rightarrow> Inr (File (withLeadingSlash (trim m)))
         | None \<Rightarrow> Inr Unknown))))"

text \<open>\<open>sanitize\<close>: \<open>input.replace(/[<>]/g, '').trim().slice(0, 1000)\<close>\<close>

definition sanitize :: "jstring \<Rightarrow> jstring" where
  "sanitize input = take 1000 (trim (filter (\<lambda>c. c \<noteq> 0x3C \<and> c \<noteq> 0x3E) input))"

text \<open>
  The grammar in the words of the specification: after trimming and without regard to
  case, the text is \<open>list\<close> or \<open>/list\<close>, or starts with one of the four prefixes.
\<close>

definition matchesGrammarRule :: "jstring \<Rightarrow> bool" where
  "matchesGrammarRule text =
     (let t = toLowerCase (trim text)
      in t = lit ''list'' \<or> t = lit ''/list'' \<or> startsWith t (lit ''scan:'')
         \<or> startsWith t (lit ''text:'') \<or> startsWith t (lit ''get:'')
         \<or> startsWith t (lit ''file:''))"

text \<open>
  The \<open>scan:\<close> rule in the words of the specification: what follows the prefix is cut at
  the first newline; the first line, trimmed, is the prompt, the remaining lines, trimmed
  as one block, are the content, which is absent when that block is empty.
\<close>

definition scanAsSpecified :: "jstring \<Rightarrow> ParsedMessage" where
  "scanAsSpecified afterPrefix =
     (let prompt = trim (takeWhile (\<lambda>c. c \<noteq> 0x0A) afterPrefix);
          content = trim (drop 1 (dropWhile (\<lambda>c. c \<noteq> 0x0A) afterPrefix))
      in Scan prompt (if content = [] then None else Some content))"

section \<open>Text and byte encodings\<close>

text \<open>
  \<open>cipher.update(text, 'utf8', ...)\<close> encodes the string as UTF-8 and
  \<open>decipher.update(..., 'utf8')\<close> decodes bytes into a string. A surrogate pair is one code
  point; a surrogate without its partner is encoded as U+FFFD.
\<close>

definition isHighSurrogate :: "unit16 \<Rightarrow> bool" where
  "isHighSurrogate c = (0xD800 \<le> c \<and> c \<le> 0xDBFF)"

definition isLowSurrogate :: "unit16 \<Rightarrow> bool" where
  "isLowSurrogate c = (0xDC00 \<le> c \<and> c \<le> 0xDFFF)"

text \<open>\<open>String.prototype.isWellFormed\<close>: no surrogate stands alone.\<close>

fun wellFormed :: "jstring \<Rightarrow> bool" where
  "wellFormed [] = True"
| "wellFormed [c] = (\<not> isHighSurrogate c \<and> \<not> isLowSurrogate c)"
| "wellFormed (c # d # cs) =
     (if isHighSurrogate c then isLowSurrogate d \<and> wellFormed cs
      else \<not> isLowSurrogate c \<and> wellFormed (d # cs))"

definition utf8Bytes :: "nat \<Rightarrow> byte list" where
  "utf8Bytes cp =
     (if cp < 0x80 then [of_nat cp]
      else if cp < 0x800 then [of_nat (0xC0 + cp div 64), of_nat (0x80 + cp mod 64)]
      else if cp < 0x10000 then
        [of_nat (0xE0 + cp div 4096), of_nat (0x80 + cp div 64 mod 64), of_nat (0x80 + cp mod 64)]
      else
        [of_nat (0xF0 + cp div 262144), of_nat (0x80 + cp div 4096 mod 64),
         of_nat (0x80 + cp div 64 mod 64), of_nat (0x80 + cp mod 64)])"

fun utf8Encode :: "jstring \<Rightarrow> byte list" where
  "utf8Encode [] = []"
| "utf8Encode [c] =
     (if isHighSurrogate c \<or> isLowSurrogate c then utf8Bytes 0xFFFD else utf8Bytes (unat c))"
| "utf8Encode (c # d # cs) =
     (if isHighSurrogate c then
        (if isLowSurrogate d then
           utf8Bytes (0x10000 + (unat c - 0xD800) * 0x400 + (unat d - 0xDC00)) @ utf8Encode cs
         else utf8Bytes 0xFFFD @ utf8Encode (d # cs))
      else if isLowSurrogate c then utf8Bytes 0xFFFD @ utf8Encode (d # cs)
      else utf8Bytes (unat c) @ utf8Encode (d # cs))"

text \<open>
  The decoder is the state machine of the Encoding Standard: a lead byte sets how many
  continuation bytes are needed and the bounds of the next one; a byte out of bounds
  yields U+FFFD and is read again as a first byte; input that ends inside a sequence
  yields U+FFFD.
\<close>

record utf8State =
  codePoint :: nat
  bytesNeeded :: nat
  bytesSeen :: nat
  lowerBoundary :: nat
  upperBoundary :: nat

definition utf8Init :: utf8State where
  "utf8Init = \<lparr>codePoint = 0, bytesNeeded = 0, bytesSeen = 0,
               lowerBoundary = 0x80, upperBoundary = 0xBF\<rparr>"

definition unitsOf :: "nat \<Rightarrow> jstring" where
  "unitsOf cp =
     (if cp < 0x10000 then [of_nat cp]
      else [of_nat (0xD800 + (cp - 0x10000) div 0x400),
            of_nat (0xDC00 + (cp - 0x10000) mod 0x400)])"

definition utf8Start :: "nat \<Rightarrow> utf8State \<times> jstring" where
  "utf8Start b =
     (if b < 0x80 then (utf8Init, [of_nat b])
      else if 0xC2 \<le> b \<and> b \<le> 0xDF then
        (\<lparr>codePoint = b - 0xC0, bytesNeeded = 1, bytesSeen = 0,
          lowerBoundary = 0x80, upperBoundary = 0xBF\<rparr>, [])
      else if 0xE0 \<le> b \<and> b \<le> 0xEF then
        (\<lparr>codePoint = b - 0xE0, bytesNeeded = 2, bytesSeen = 0,
          lowerBoundary = (if b = 0xE0 then 0xA0 else 0x80),
          upperBoundary = (if b = 0xED then 0x9F else 0xBF)\<rparr>, [])
      else if 0xF0 \<le> b \<and> b \<le> 0xF4 then
        (\<lparr>codePoint = b - 0xF0, bytesNeeded = 3, bytesSeen = 0,
          lowerBoundary = (if b = 0xF0 then 0x90 else 0x80),
          upperBoundary = (if b = 0xF4 then 0x8F else 0xBF)\<rparr>, [])
      else (utf8Init, [0xFFFD]))"

definition utf8Step :: "utf8State \<Rightarrow> nat \<Rightarrow> utf8State \<times> jstring" where
  "utf8Step st b =
     (if bytesNeeded st = 0 then utf8Start b
      else if b < lowerBoundary st \<or> upperBoundary st < b then
        (case utf8Start b of (st', out) \<Rightarrow> (st', 0xFFFD # out))
      else
        (let cp = codePoint st * 64 + (b - 0x80);
             seen = bytesSeen st + 1
         in if seen \<noteq> bytesNeeded st then
              (st\<lparr>codePoint := cp, bytesSeen := seen,
                  lowerBoundary := 0x80, upperBoundary := 0xBF\<rparr>, [])
            else (utf8Init, unitsOf cp)))"

fun utf8DecodeFrom :: "utf8State \<Rightarrow> byte list \<Rightarrow> jstring" where
  "utf8DecodeFrom st [] = (if bytesNeeded st \<noteq> 0 then [0xFFFD] else [])"
| "utf8DecodeFrom st (b # bs) =
     (case utf8Step st (unat b) of (st', out) \<Rightarrow> out @ utf8DecodeFrom st' bs)"

definition utf8Decode :: "byte list \<Rightarrow> jstring" where
  "utf8Decode bs = utf8DecodeFrom utf8Init bs"

text \<open>
  Hexadecimal text: \<open>buf.toString('hex')\<close> writes two lower-case digits a byte;
  \<open>Buffer.from(s, 'hex')\<close> reads pairs of digits and stops at the first pair that is
  not hexadecimal.
\<close>

definition hexDigit :: "nat \<Rightarrow> unit16" where
  "hexDigit n = (if n < 10 then of_nat (0x30 + n) else of_nat (0x57 + n))"

definition hexEncode :: "byte list \<Rightarrow> jstring" where
  "hexEncode bs = concat (map (\<lambda>b. [hexDigit (unat b div 16), hexDigit (unat b mod 16)]) bs)"

definition hexValue :: "unit16 \<Rightarrow> nat option" where
  "hexValue c =
     (if 0x30 \<le> c \<and> c \<le> 0x39 then Some (unat c - 0x30)
      else if 0x61 \<le> c \<and> c \<le> 0x66 then Some (unat c - 0x57)
      else if 0x41 \<le> c \<and> c \<le> 0x46 then Some (unat c - 0x37)
      else None)"

fun hexDecode :: "jstring \<Rightarrow> byte list" where
  "hexDecode (h # l # rest) =
     (case hexValue h of
        None \<Rightarrow> []
      | Some x \<Rightarrow>
          (case hexValue l of
             None \<Rightarrow> []
           | Some y \<Rightarrow> of_nat (16 * x + y) # hexDecode rest))"
| "hexDecode [c] = []"
| "hexDecode [] = []"

section \<open>The encrypted session store\<close>

text \<open>
  AES-256-CBC itself is the runtime's: a cipher is given by what it does to a byte
  string under an initialisation vector, the key (the SHA-256 digest of the operator's
  secret) being fixed for the process. Deciphering fails, as \<open>decipher.final\<close> throws,
  on a wrong length or bad padding.
\<close>

record cipher =
  encryptBlocks :: "byte list \<Rightarrow> byte list \<Rightarrow> byte list"
  decryptBlocks :: "byte list \<Rightarrow> byte list \<Rightarrow> byte list option"

text \<open>
  \<open>encrypt\<close>. The initialisation vector \<open>iv\<close> is the result of \<open>randomBytes(16)\<close> in this
  call.
\<close>

definition encrypt :: "cipher \<Rightarrow> byte list \<Rightarrow> jstring \<Rightarrow> jstring" where
  "encrypt C iv text =
     hexEncode iv @ lit '':'' @ hexEncode (encryptBlocks C iv (utf8Encode text))"

text \<open>
  \<open>decrypt\<close>. \<open>const [ivHex, encrypted] = encryptedText.split(':')\<close> takes the first two
  parts, the second \<open>undefined\<close> when there is no colon. \<open>createDecipheriv\<close> throws unless
  the vector has 16 bytes; \<open>decipher.update\<close> throws on \<open>undefined\<close> and on hexadecimal
  text of odd length.
\<close>

definition decrypt :: "cipher \<Rightarrow> jstring \<Rightarrow> thrown + jstring" where
  "decrypt C encryptedText =
     (case split 0x3A encryptedText of
        [] \<Rightarrow> Inl (TypeError (lit ''undefined is not iterable''))
      | ivHex # others \<Rightarrow>
          (let encrypted = (case others of [] \<Rightarrow> None | e # _ \<Rightarrow> Some e);
               iv = hexDecode ivHex
           in if length iv \<noteq> 16 then Inl (Error (lit ''Invalid initialization vector''))
              else case encrypted of
                None \<Rightarrow> Inl (TypeError (lit ''The data argument must be of type string''))
              | Some e \<Rightarrow>
                  if odd (length e) then
                    Inl (TypeError (lit ''The argument encoding is invalid for data''))
                  else (case decryptBlocks C iv (hexDecode e) of
                          None \<Rightarrow> Inl (Error (lit ''bad decrypt''))
                        | Some bytes \<Rightarrow> Inr (utf8Decode bytes))))"

record UserSession =
  apiKey :: "jstring option"
  lastPrompt :: "jstring option"
  linkedAt :: "jstring option"

definition emptySession :: UserSession where
  "emptySession = \<lparr>apiKey = None, lastPrompt = None, linkedAt = None\<rparr>"

text \<open>The Keyv namespace \<open>sessions\<close>: one record a user id.\<close>

type_synonym sessionStore = "nat \<rightharpoonup> UserSession"

text \<open>A string is truthy when it is neither \<open>undefined\<close> nor empty.\<close>

definition truthy :: "jstring option \<Rightarrow> bool" where
  "truthy v = (case v of None \<Rightarrow> False | Some s \<Rightarrow> s \<noteq> [])"

text \<open>
  \<open>getSession\<close>. The \<open>try\<close> around \<open>decrypt\<close> is written out: whatever is thrown there
  clears the key.
\<close>

definition getSession :: "cipher \<Rightarrow> sessionStore \<Rightarrow> nat \<Rightarrow> thrown + UserSession" where
  "getSession C store userId =
     (case store userId of
        None \<Rightarrow> Inr emptySession
      | Some data \<Rightarrow>
          (case apiKey data of
             None \<Rightarrow> Inr data
           | Some k \<Rightarrow>
               if k = [] then Inr data
               else (case decrypt C k of
                       Inr plain \<Rightarrow> Inr (data\<lparr>apiKey := Some plain\<rparr>)
                     | Inl thrownValue \<Rightarrow> Inr (data\<lparr>apiKey := None\<rparr>))))"

definition saveSession ::
  "cipher \<Rightarrow> byte list \<Rightarrow> sessionStore \<Rightarrow> nat \<Rightarrow> UserSession \<Rightarrow> sessionStore" where
  "saveSession C iv store userId session =
     (let dataToSave =
            (case apiKey session of
               None \<Rightarrow> session
             | Some k \<Rightarrow> if k = [] then session else session\<lparr>apiKey := Some (encrypt C iv k)\<rparr>)
      in store(userId \<mapsto> dataToSave))"

text \<open>
  \<open>Partial<UserSession>\<close>: a field is either not mentioned (\<open>None\<close>) or given a value,
  which may be \<open>undefined\<close>. \<open>{ ...current, ...updates }\<close> takes the mentioned fields from
  the update.
\<close>

record sessionUpdate =
  apiKeyUpdate :: "jstring option option"
  lastPromptUpdate :: "jstring option option"
  linkedAtUpdate :: "jstring option option"

definition merge :: "UserSession \<Rightarrow> sessionUpdate \<Rightarrow> UserSession" where
  "merge current updates =
     \<lparr>apiKey = (case apiKeyUpdate updates of None \<Rightarrow> apiKey current | Some v \<Rightarrow> v),
      lastPrompt = (case lastPromptUpdate updates of None \<Rightarrow> lastPrompt current | Some v \<Rightarrow> v),
      linkedAt = (case linkedAtUpdate updates of None \<Rightarrow> linkedAt current | Some v \<Rightarrow> v)\<rparr>"

definition updateSession ::
  "cipher \<Rightarrow> byte list \<Rightarrow> sessionStore \<Rightarrow> nat \<Rightarrow> sessionUpdate
     \<Rightarrow> thrown + (sessionStore \<times> UserSession)" where
  "updateSession C iv store userId updates =
     (case getSession C store userId of
        Inl e \<Rightarrow> Inl e
      | Inr current \<Rightarrow>
          (let updated = merge current updates
           in Inr (saveSession C iv store userId updated, updated)))"

text \<open>\<open>setApiKey\<close>; \<open>now\<close> is \<open>new Date().toISOString()\<close> at the call.\<close>

definition setApiKey ::
  "cipher \<Rightarrow> byte list \<Rightarrow> jstring \<Rightarrow> sessionStore \<Rightarrow> nat \<Rightarrow> jstring \<Rightarrow> thrown + sessionStore" where
  "setApiKey C iv now store userId key =
     (case updateSession C iv store userId
             \<lparr>apiKeyUpdate = Some (Some key), lastPromptUpdate = None,
              linkedAtUpdate = Some (Some now)\<rparr> of
        Inl e \<Rightarrow> Inl e
      | Inr (store', updated) \<Rightarrow> Inr store')"


definition setLastPrompt ::
  "cipher \<Rightarrow> byte list \<Rightarrow> sessionStore \<Rightarrow> nat \<Rightarrow> jstring \<Rightarrow> thrown + sessionStore" where
  "setLastPrompt C iv store userId prompt =
     (case updateSession C iv store userId
             \<lparr>apiKeyUpdate = None, lastPromptUpdate = Some (Some prompt),
              linkedAtUpdate = None\<rparr> of
        Inl e \<Rightarrow> Inl e
      | Inr (store', updated) \<Rightarrow> Inr store')"


definition clearSession :: "sessionStore \<Rightarrow> nat \<Rightarrow> sessionStore" where
  "clearSession store userId = store(userId := None)"

definition hasApiKey :: "cipher \<Rightarrow> sessionStore \<Rightarrow> nat \<Rightarrow> thrown + bool" where
  "hasApiKey C store userId =
     (case getSession C store userId of
        Inl e \<Rightarrow> Inl e
      | Inr session \<Rightarrow> Inr (truthy (apiKey session)))"

text \<open>
  A cipher for closed examples: it adds the sum of the vector's bytes to every byte and
  appends the vector; deciphering checks the appended vector.
\<close>

definition exampleCipher :: cipher where
  "exampleCipher =
     \<lparr>encryptBlocks = (\<lambda>iv p. map (\<lambda>b. b + sum_list iv) p @ iv),
      decryptBlocks = (\<lambda>iv c.
         if length iv \<le> length c \<and> drop (length c - length iv) c = iv
         then Some (map (\<lambda>b. b - sum_list iv) (take (length c - length iv) c))
         else None)\<rparr>"

definition exampleIv :: "byte \<Rightarrow> byte list" where
  "exampleIv b = replicate 16 b"

section \<open>The backend client\<close>




















record EndpointListItem =
  path :: jstring
  category :: jstring
  slug :: jstring
  itemCount :: nat













section \<open>The conversation handlers\<close>





datatype chatKind = Private | Group | Supergroup | Channel


record PhotoSize =
  file_id :: jstring
  photo_file_size :: "nat option"























section \<open>File uploads\<close>
















section \<open>Lists and strings: auxiliary facts\<close>

lemma split_not_Nil: "split sep s \<noteq> []"
  by (induction s) (auto split: list.splits)

lemma join_split: "join sep (split sep s) = s"
proof (induction s)
  case Nil show ?case by simp
next
  case (Cons c cs)
  obtain p ps where ps: "split sep cs = p # ps" using split_not_Nil[of sep cs] by (cases "split sep cs") auto
  show ?case using Cons ps by (cases ps) auto
qed

lemma hd_split: "hd (split sep s) = takeWhile (\<lambda>c. c \<noteq> sep) s"
  using split_not_Nil[of sep] by (induction s) (auto split: list.splits)

lemma join_tl_split: "join sep (tl (split sep s)) = drop 1 (dropWhile (\<lambda>c. c \<noteq> sep) s)"
  by (induction s) (auto simp: join_split split: list.splits)

lemma split_parts:
  "split sep s = l0 # others \<Longrightarrow>
     l0 = takeWhile (\<lambda>c. c \<noteq> sep) s \<and> join sep others = drop 1 (dropWhile (\<lambda>c. c \<noteq> sep) s)"
  using hd_split[of sep s] join_tl_split[of sep s] by simp

lemma trim_set: "set (trim s) \<subseteq> set s"
  unfolding trim_def by (auto dest!: set_dropWhileD)

lemma dropWhile_rev_last: "xs \<noteq> [] \<Longrightarrow> \<not> P (last xs) \<Longrightarrow> dropWhile P (rev xs) = rev xs"
  by (cases xs rule: rev_cases) auto

lemma trim_id:
  assumes "s = [] \<or> (\<not> isWhiteSpace (hd s) \<and> \<not> isWhiteSpace (last s))"
  shows "trim s = s"
proof (cases s)
  case Nil
  then show ?thesis by (simp add: trim_def)
next
  case (Cons a as)
  with assms have a: "\<not> isWhiteSpace a" and l: "\<not> isWhiteSpace (last s)" by auto
  from a Cons have "dropWhile isWhiteSpace s = s" by simp
  moreover have "dropWhile isWhiteSpace (rev s) = rev s"
    using dropWhile_rev_last[of s isWhiteSpace] l Cons by simp
  ultimately show ?thesis by (simp add: trim_def)
qed

lemma trim_hd: "trim s \<noteq> [] \<Longrightarrow> \<not> isWhiteSpace (hd (trim s))"
proof -
  assume ne: "trim s \<noteq> []"
  define d where "d = dropWhile isWhiteSpace s"
  have t: "trim s = rev (dropWhile isWhiteSpace (rev d))" by (simp add: trim_def d_def)
  with ne have dne: "d \<noteq> []" by auto
  then obtain a d' where d: "d = a # d'" by (cases d) auto
  have a: "\<not> isWhiteSpace a" using hd_dropWhile[of isWhiteSpace s] dne d unfolding d_def by (metis list.sel(1))
  have "hd (trim s) = a" unfolding t d using a by (simp add: dropWhile_append)
  with a show ?thesis by simp
qed

lemma trim_last: "trim s \<noteq> [] \<Longrightarrow> \<not> isWhiteSpace (last (trim s))"
  unfolding trim_def using hd_dropWhile[of isWhiteSpace "rev (dropWhile isWhiteSpace s)"]
  by (simp add: last_rev)

lemma trim_idem: "trim (trim s) = trim s"
  using trim_id[of "trim s"] trim_hd[of s] trim_last[of s] by blast

lemma lower_canon: "lowerUnit (canonicalize c) = lowerUnit c"
  unfolding lowerUnit_def canonicalize_def by (auto; unat_arith)

lemma matchLiteral_Some:
  "matchLiteral word s = Some rest \<Longrightarrow>
     s = take (length word) s @ rest \<and> length word \<le> length s \<and> toLowerCase (take (length word) s) = toLowerCase word"
proof (induction word s rule: matchLiteral.induct)
  case (3 p ps c cs)
  then have eq: "canonicalize p = canonicalize c" and m: "matchLiteral ps cs = Some rest"
    by (auto split: if_splits)
  from eq have "lowerUnit p = lowerUnit c" using lower_canon[of p] lower_canon[of c] by simp
  with 3(1)[OF eq m] show ?case by (simp add: toLowerCase_def)
qed (auto simp: toLowerCase_def)

lemma spaces_dotall:
  "dropWhile isWhiteSpace s \<noteq> [] \<Longrightarrow> spacesThenDotPlus True s = Some (dropWhile isWhiteSpace s)"
  by (induction s) (auto simp: dotPlus_def dotMatches_def)

lemma sanitize_len: "length (sanitize x) \<le> 1000" by (simp add: sanitize_def)

lemma sanitize_no_angle: "0x3C \<notin> set (sanitize x) \<and> 0x3E \<notin> set (sanitize x)"
proof -
  have "set (sanitize x) \<subseteq> set (filter (\<lambda>c. c \<noteq> 0x3C \<and> c \<noteq> 0x3E) x)"
    unfolding sanitize_def using trim_set set_take_subset by (rule order_trans[rotated])
  then show ?thesis by auto
qed

lemma trim_length: "length (trim s) \<le> length s"
proof -
  have "length (trim s) \<le> length (dropWhile isWhiteSpace s)"
    unfolding trim_def using length_dropWhile_le[of isWhiteSpace "rev (dropWhile isWhiteSpace s)"] by simp
  also have "\<dots> \<le> length s" by (rule length_dropWhile_le)
  finally show ?thesis .
qed

lemma sanitize_twice: "sanitize (sanitize x) = trim (sanitize x)"
proof -
  have f: "filter (\<lambda>c. c \<noteq> 0x3C \<and> c \<noteq> 0x3E) (sanitize x) = sanitize x"
    using sanitize_no_angle[of x] by (intro filter_True) auto
  have "length (trim (sanitize x)) \<le> 1000"
    using sanitize_len[of x] trim_length[of "sanitize x"] by linarith
  then show ?thesis unfolding sanitize_def[of "sanitize x"] f by simp
qed

lemma sanitize_hd: "sanitize x \<noteq> [] \<Longrightarrow> \<not> isWhiteSpace (hd (sanitize x))"
proof -
  let ?t = "trim (filter (\<lambda>c. c \<noteq> 0x3C \<and> c \<noteq> 0x3E) x)"
  assume ne: "sanitize x \<noteq> []"
  then have tne: "?t \<noteq> []" by (auto simp: sanitize_def)
  have "hd (sanitize x) = hd ?t" using tne by (cases ?t) (auto simp: sanitize_def)
  with trim_hd[OF tne] show ?thesis by simp
qed

lemma sanitize_short:
  assumes "length (trim (filter (\<lambda>c. c \<noteq> 0x3C \<and> c \<noteq> 0x3E) x)) \<le> 1000"
  shows "sanitize (sanitize x) = sanitize x"
proof -
  from assms have "sanitize x = trim (filter (\<lambda>c. c \<noteq> 0x3C \<and> c \<noteq> 0x3E) x)"
    by (simp add: sanitize_def)
  then have "trim (sanitize x) = sanitize x" by (simp only: trim_idem)
  then show ?thesis by (simp only: sanitize_twice)
qed


lemma trim_trailing_space: "length (trim (ys @ [0x20])) \<le> length ys"
proof (cases "\<forall>c\<in>set ys. isWhiteSpace c")
  case True
  then have "dropWhile isWhiteSpace (ys @ [0x20]) = []"
    by (simp add: dropWhile_append isWhiteSpace_def)
  then show ?thesis by (simp add: trim_def)
next
  case False
  then have "dropWhile isWhiteSpace (ys @ [0x20]) = dropWhile isWhiteSpace ys @ [0x20]"
    by (simp add: dropWhile_append)
  moreover have "isWhiteSpace 0x20" by (simp add: isWhiteSpace_def)
  ultimately have "trim (ys @ [0x20]) = trim ys" by (simp add: trim_def)
  then show ?thesis using trim_length[of ys] by simp
qed

lemma sanitize_long_run:
  assumes len: "length r = 999" and els: "set r = {0x61}"
  shows "sanitize (sanitize (r @ [0x20, 0x62])) \<noteq> sanitize (r @ [0x20, 0x62])"
proof -
  let ?x = "r @ [0x20, 0x62] :: jstring"
  from len have rne: "r \<noteq> []" by auto
  then have "hd r \<in> set r" by simp
  with els have hdr: "hd r = 0x61" by simp
  have f: "filter (\<lambda>c. c \<noteq> 0x3C \<and> c \<noteq> 0x3E) ?x = ?x"
    using els by (intro filter_True) auto
  have "\<not> isWhiteSpace (hd ?x)" "\<not> isWhiteSpace (last ?x)"
    using rne hdr by (simp_all add: isWhiteSpace_def hd_append)
  then have t: "trim ?x = ?x" by (intro trim_id) blast
  have s: "sanitize ?x = r @ [0x20]" unfolding sanitize_def f t using len by simp
  have "sanitize (sanitize ?x) = trim (sanitize ?x)" by (rule sanitize_twice)
  also have "\<dots> = trim (r @ [0x20])" by (simp only: s)
  finally have "length (sanitize (sanitize ?x)) \<le> 999"
    using trim_trailing_space[of r] len by simp
  moreover have "length (sanitize ?x) = 1000" using len by (simp only: s) simp
  ultimately show ?thesis by auto
qed

section \<open>The parser: auxiliary facts\<close>

lemma matchPrefix_startsWith:
  assumes "matchPrefix dotAll word t = Some m" and "toLowerCase word = word"
  shows "startsWith (toLowerCase t) word"
proof -
  from assms(1) obtain rest where "matchLiteral word t = Some rest"
    by (auto simp: matchPrefix_def split: option.splits)
  from matchLiteral_Some[OF this] assms(2)
  have "toLowerCase (take (length word) t) = word" by simp
  then show ?thesis by (simp add: startsWith_def toLowerCase_def take_map)
qed

lemma lower_lits:
  "toLowerCase (lit ''scan:'') = lit ''scan:''"
  "toLowerCase (lit ''text:'') = lit ''text:''"
  "toLowerCase (lit ''get:'') = lit ''get:''"
  "toLowerCase (lit ''file:'') = lit ''file:''"
  by (simp_all add: toLowerCase_def lit_def lowerUnit_def)

lemma parseMessage_Inr: "\<exists>m. parseMessage s = Inr m"
  unfolding parseMessage_def Let_def using split_not_Nil[of "0x0A :: unit16"]
  by (auto split: option.splits list.splits)

lemma parseMessage_unmatched:
  assumes "\<not> matchesGrammarRule s"
  shows "parseMessage s = Inr Unknown"
proof -
  let ?t = "trim s"
  from assms have n: "toLowerCase ?t \<noteq> lit ''list''" "toLowerCase ?t \<noteq> lit ''/list''"
    "\<not> startsWith (toLowerCase ?t) (lit ''scan:'')" "\<not> startsWith (toLowerCase ?t) (lit ''text:'')"
    "\<not> startsWith (toLowerCase ?t) (lit ''get:'')" "\<not> startsWith (toLowerCase ?t) (lit ''file:'')"
    by (simp_all add: matchesGrammarRule_def Let_def)
  have "matchPrefix True (lit ''scan:'') ?t = None" "matchPrefix True (lit ''text:'') ?t = None"
     "matchPrefix False (lit ''get:'') ?t = None" "matchPrefix False (lit ''file:'') ?t = None"
    using n matchPrefix_startsWith lower_lits by (metis not_Some_eq)+
  with n show ?thesis by (simp add: parseMessage_def Let_def)
qed


lemma trimmed_suffix_spaces:
  assumes "trim text = pre @ rest" and "rest \<noteq> []"
  shows "dropWhile isWhiteSpace rest \<noteq> []"
proof -
  from assms have "trim text \<noteq> []" by auto
  from trim_last[OF this] assms have "\<not> isWhiteSpace (last rest)" by simp
  with assms(2) show ?thesis by (auto simp: dropWhile_eq_Nil_conv)
qed


section \<open>Properties of the intent parser\<close>

text \<open>
  Claim C1. \<open>parseMessage\<close> returns on every string, never throws, and its result is one
  of the six variants; a string that matches no rule of the grammar is \<open>Unknown\<close>.
\<close>

theorem parseMessage_total:
  "\<exists>m. parseMessage s = Inr m
       \<and> (m = List \<or> (\<exists>p c. m = Scan p c) \<or> (\<exists>c. m = Text c) \<or> (\<exists>p. m = Get p)
            \<or> (\<exists>p. m = File p) \<or> m = Unknown)
       \<and> (\<not> matchesGrammarRule s \<longrightarrow> m = Unknown)"
proof -
  obtain m where m: "parseMessage s = Inr m" using parseMessage_Inr by blast
  have "m = List \<or> (\<exists>p c. m = Scan p c) \<or> (\<exists>c. m = Text c) \<or> (\<exists>p. m = Get p)
            \<or> (\<exists>p. m = File p) \<or> m = Unknown" by (cases m) auto
  moreover have "\<not> matchesGrammarRule s \<longrightarrow> m = Unknown"
    using parseMessage_unmatched[of s] m by auto
  ultimately show ?thesis using m by blast
qed

theorem parseMessage_total_witness:
  "\<not> matchesGrammarRule (lit ''hello there'') \<and> parseMessage (lit ''hello there'') = Inr Unknown"
proof -
  have h: "\<not> matchesGrammarRule (lit ''hello there'')" by code_simp
  from parseMessage_total[of "lit ''hello there''"] h show ?thesis by auto
qed

text \<open>
  Claim C5, as the code has it. When the trimmed text is \<open>scan:\<close> (in any case) and
  nothing more, the result is \<open>Unknown\<close>. Otherwise the white space that follows the
  prefix, newlines included, is skipped, and what remains is cut at the first newline:
  the first line, trimmed, is the prompt; the rest, trimmed as one block with its inner
  newlines kept, is the content, absent when empty.
\<close>

theorem parseMessage_scan:
  assumes "matchLiteral (lit ''scan:'') (trim text) = Some rest"
  shows "parseMessage text =
           (if rest = [] then Inr Unknown
            else Inr (scanAsSpecified (dropWhile isWhiteSpace rest)))"
proof -
  let ?t = "trim text"
  have l5: "length (lit ''scan:'') = 5" by (simp add: lit_def)
  from matchLiteral_Some[OF assms]
  have t: "?t = take 5 ?t @ rest" and len: "5 \<le> length ?t"
    and low: "toLowerCase (take 5 ?t) = lit ''scan:''"
    unfolding l5 lower_lits by blast+
  have "take 5 (toLowerCase ?t) = lit ''scan:''" using low by (simp add: toLowerCase_def take_map)
  then have nl: "toLowerCase ?t \<noteq> lit ''list''" "toLowerCase ?t \<noteq> lit ''/list''"
    by (auto simp: lit_def)
  show ?thesis
  proof (cases "rest = []")
    case True
    then have 1: "matchPrefix True (lit ''scan:'') ?t = None" using assms by (simp add: matchPrefix_def)
    have 2: "matchPrefix b w ?t = None" if "w = lit ''text:'' \<or> w = lit ''get:'' \<or> w = lit ''file:''" for b w
    proof (rule ccontr)
      assume "matchPrefix b w ?t \<noteq> None"
      then obtain r where "matchLiteral w ?t = Some r" by (auto simp: matchPrefix_def split: option.splits)
      from matchLiteral_Some[OF this] have "toLowerCase (take (length w) ?t) = toLowerCase w" by simp
      then have "take (length w) (toLowerCase ?t) = w" using that lower_lits by (auto simp: toLowerCase_def take_map)
      moreover have "toLowerCase ?t = lit ''scan:''" using t True low by (metis append_Nil2)
      ultimately show False using that by (auto simp: lit_def)
    qed
    show ?thesis using True nl 1 2 by (simp add: parseMessage_def Let_def)
  next
    case False
    from trimmed_suffix_spaces[OF t False]
    have "spacesThenDotPlus True rest = Some (dropWhile isWhiteSpace rest)" by (rule spaces_dotall)
    then have m: "matchPrefix True (lit ''scan:'') ?t = Some (dropWhile isWhiteSpace rest)"
      using assms by (simp add: matchPrefix_def)
    obtain l0 others where sp: "split 0x0A (dropWhile isWhiteSpace rest) = l0 # others"
      using split_not_Nil[of "0x0A::unit16" "dropWhile isWhiteSpace rest"] by (cases "split (0x0A::unit16) (dropWhile isWhiteSpace rest)") auto
    from split_parts[OF sp] show ?thesis using False nl m sp
      by (simp add: parseMessage_def Let_def scanAsSpecified_def)
  qed
qed

theorem parseMessage_scan_witness:
  "matchLiteral (lit ''scan:'') (trim (lit ''Scan: research'' @ 0x0A # lit ''Line 1'' @ 0x0A # lit ''Line 2''))
     = Some (lit '' research'' @ 0x0A # lit ''Line 1'' @ 0x0A # lit ''Line 2'')
   \<and> parseMessage (lit ''Scan: research'' @ 0x0A # lit ''Line 1'' @ 0x0A # lit ''Line 2'')
     = Inr (Scan (lit ''research'') (Some (lit ''Line 1'' @ 0x0A # lit ''Line 2'')))"
proof -
  let ?x = "lit ''Scan: research'' @ 0x0A # lit ''Line 1'' @ 0x0A # lit ''Line 2''"
  let ?r = "lit '' research'' @ 0x0A # lit ''Line 1'' @ 0x0A # lit ''Line 2''"
  have h: "matchLiteral (lit ''scan:'') (trim ?x) = Some ?r" by code_simp
  have e: "(if ?r = [] then Inr Unknown else Inr (scanAsSpecified (dropWhile isWhiteSpace ?r)))
      = (Inr (Scan (lit ''research'') (Some (lit ''Line 1'' @ 0x0A # lit ''Line 2''))) :: thrown + ParsedMessage)" by code_simp
  from parseMessage_scan[OF h] e h show ?thesis by simp
qed

text \<open>
  The claim as it is written fails on a bare prefix, which is not a \<open>scan\<close> at all, and
  on a newline right after the prefix, where the first line after the prefix is empty
  but the prompt is taken from the next line.
\<close>

theorem parseMessage_scan_counterexample:
  "parseMessage (lit ''scan:'') \<noteq> Inr (scanAsSpecified [])
   \<and> parseMessage (lit ''scan:'' @ 0x0A # lit ''body'') \<noteq> Inr (scanAsSpecified (0x0A # lit ''body''))"
  by code_simp

section \<open>Properties of the sanitizer\<close>

text \<open>
  Claim C4, as the code has it. \<open>sanitize\<close> drops every \<open><\<close> and \<open>>\<close>, trims, and keeps
  at most 1000 code units. Applying it again trims once more, so it is idempotent
  whenever the stripped and trimmed input has at most 1000 code units.
\<close>

theorem sanitize_strips_trims_truncates:
  "length (sanitize x) \<le> 1000
   \<and> 0x3C \<notin> set (sanitize x) \<and> 0x3E \<notin> set (sanitize x)
   \<and> sanitize x = take 1000 (trim (filter (\<lambda>c. c \<noteq> 0x3C \<and> c \<noteq> 0x3E) x))
   \<and> (sanitize x \<noteq> [] \<longrightarrow> \<not> isWhiteSpace (hd (sanitize x)))
   \<and> sanitize (sanitize x) = trim (sanitize x)
   \<and> (length (trim (filter (\<lambda>c. c \<noteq> 0x3C \<and> c \<noteq> 0x3E) x)) \<le> 1000
        \<longrightarrow> sanitize (sanitize x) = sanitize x)"
  using sanitize_len[of x] sanitize_no_angle[of x] sanitize_hd[of x] sanitize_twice[of x]
    sanitize_short[of x] sanitize_def[of x]
  by blast

theorem sanitize_strips_trims_truncates_witness:
  "sanitize (lit ''  <script>x</script> '') = lit ''scriptx/script''
   \<and> sanitize (sanitize (lit ''  <script>x</script> '')) = sanitize (lit ''  <script>x</script> '')"
proof -
  let ?x = "lit ''  <script>x</script> ''"
  have h2: "sanitize ?x = lit ''scriptx/script''"
    by (simp add: sanitize_def lit_def trim_def isWhiteSpace_def)
  have "length (trim (filter (\<lambda>c. c \<noteq> 0x3C \<and> c \<noteq> 0x3E) ?x)) \<le> length ?x"
    using trim_length[of "filter (\<lambda>c. c \<noteq> 0x3C \<and> c \<noteq> 0x3E) ?x"]
      length_filter_le[of "\<lambda>c. c \<noteq> 0x3C \<and> c \<noteq> 0x3E" ?x] by (rule order_trans)
  moreover have "length ?x \<le> 1000" by (simp add: lit_def)
  ultimately have h1: "length (trim (filter (\<lambda>c. c \<noteq> 0x3C \<and> c \<noteq> 0x3E) ?x)) \<le> 1000"
    by (rule order_trans)
  from sanitize_strips_trims_truncates[of ?x] h1
  have "sanitize (sanitize ?x) = sanitize ?x" by blast
  with h2 show ?thesis by (rule conjI)
qed


text \<open>
  Truncation after trimming can leave a trailing space, which the second application
  removes: 999 letters, a space and a letter.
\<close>

theorem sanitize_idempotent_counterexample:
  "sanitize (sanitize (replicate 999 0x61 @ [0x20, 0x62])) \<noteq> sanitize (replicate 999 0x61 @ [0x20, 0x62])"
proof -
  have n: "(999::nat) \<noteq> 0" by simp
  have 1: "length (replicate 999 (0x61 :: unit16)) = 999" by (rule length_replicate)
  have 2: "set (replicate 999 (0x61 :: unit16)) = {0x61}" using n by (rule set_replicate)
  from 1 2 show ?thesis by (rule sanitize_long_run)
qed

section \<open>Encodings and the session store: auxiliary facts\<close>

lemma unat_of_nat_byte: "n < 256 \<Longrightarrow> unat (of_nat n :: byte) = n"
  by (simp add: unat_of_nat)

lemma unat_of_nat_unit: "n < 65536 \<Longrightarrow> unat (of_nat n :: unit16) = n"
  by (simp add: unat_of_nat)

lemma digits3:
  fixes cp :: nat
  obtains a b c where "cp = 4096 * a + 64 * b + c" "b < 64" "c < 64"
    "cp div 4096 = a" "cp div 64 mod 64 = b" "cp mod 64 = c"
proof -
  have "cp div (64 * 64) = cp div 64 div 64" by (rule div_mult2_eq)
  then have 1: "cp div 4096 = cp div 64 div 64" by simp
  have 2: "cp = 64 * (cp div 64) + cp mod 64" by simp
  have 3: "cp div 64 = 64 * (cp div 64 div 64) + cp div 64 mod 64" by simp
  have "cp = 4096 * (cp div 4096) + 64 * (cp div 64 mod 64) + cp mod 64"
    using 1 2 3 by linarith
  moreover have "cp div 64 mod 64 < 64" "cp mod 64 < 64" by simp_all
  ultimately show ?thesis using that by blast
qed

lemma digits4:
  fixes cp :: nat
  obtains a b c d where "cp = 262144 * a + 4096 * b + 64 * c + d" "b < 64" "c < 64" "d < 64"
    "cp div 262144 = a" "cp div 4096 mod 64 = b" "cp div 64 mod 64 = c" "cp mod 64 = d"
proof -
  obtain a' b c where 1: "cp = 4096 * a' + 64 * b + c" "b < 64" "c < 64"
    "cp div 4096 = a'" "cp div 64 mod 64 = b" "cp mod 64 = c" by (rule digits3)
  have "cp div (4096 * 64) = cp div 4096 div 64" by (rule div_mult2_eq)
  then have 2: "cp div 262144 = a' div 64" using 1(4) by simp
  have 3: "a' = 64 * (a' div 64) + a' mod 64" by simp
  have "cp = 262144 * (a' div 64) + 4096 * (a' mod 64) + 64 * b + c" using 1(1) 3 by linarith
  moreover have "a' mod 64 < 64" by simp
  moreover have "cp div 4096 mod 64 = a' mod 64" using 1(4) by simp
  ultimately show ?thesis using that[of "a' div 64" "a' mod 64" b c] 1(2,3,5,6) 2 by blast
qed


lemma decode3:
  assumes "0x800 \<le> cp" "cp < 0x10000" "cp < 0xD800 \<or> 0xDFFF < cp"
  shows "utf8DecodeFrom utf8Init (utf8Bytes cp @ rest) = unitsOf cp @ utf8DecodeFrom utf8Init rest"
proof -
  obtain a b c where d: "cp = 4096 * a + 64 * b + c" "b < 64" "c < 64"
    "cp div 4096 = a" "cp div 64 mod 64 = b" "cp mod 64 = c" by (rule digits3)
  define b1 where "b1 = 0xE0 + a"
  define b2 where "b2 = 0x80 + b"
  define b3 where "b3 = 0x80 + c"
  define lo where "lo = (if b1 = 0xE0 then 0xA0 else (0x80::nat))"
  define hi where "hi = (if b1 = 0xED then 0x9F else (0xBF::nat))"
  have r1: "0xE0 \<le> b1" "b1 \<le> 0xEF" "b1 < 256" "\<not> b1 < 0x80" "\<not> b1 \<le> 0xDF"
    using assms d(1,2,3) unfolding b1_def by linarith+
  have r2: "\<not> b2 < lo" "\<not> hi < b2" "b2 < 256" "0x80 \<le> b2"
    using assms d(1,2,3) unfolding b1_def b2_def lo_def hi_def by (auto split: if_splits)
  have r3: "0x80 \<le> b3" "b3 \<le> 0xBF" "b3 < 256" using d(3) unfolding b3_def by linarith+
  have v: "((b1 - 0xE0) * 64 + (b2 - 0x80)) * 64 + (b3 - 0x80) = cp"
    unfolding b1_def b2_def b3_def d(1) by simp
  have bytes: "utf8Bytes cp = [of_nat b1, of_nat b2, of_nat b3]"
    using assms d(4,5,6) by (simp add: utf8Bytes_def b1_def b2_def b3_def)
  have s1: "utf8Step utf8Init b1 = (\<lparr>codePoint = b1 - 0xE0, bytesNeeded = 2, bytesSeen = 0,
          lowerBoundary = lo, upperBoundary = hi\<rparr>, [])"
    using r1 by (simp add: utf8Step_def utf8Start_def utf8Init_def lo_def hi_def)
  have s2: "utf8Step \<lparr>codePoint = b1 - 0xE0, bytesNeeded = 2, bytesSeen = 0,
          lowerBoundary = lo, upperBoundary = hi\<rparr> b2
      = (\<lparr>codePoint = (b1 - 0xE0) * 64 + (b2 - 0x80), bytesNeeded = 2, bytesSeen = 1,
          lowerBoundary = 0x80, upperBoundary = 0xBF\<rparr>, [])"
    using r2 by (simp add: utf8Step_def Let_def)
  have s3: "utf8Step \<lparr>codePoint = (b1 - 0xE0) * 64 + (b2 - 0x80), bytesNeeded = 2, bytesSeen = 1,
          lowerBoundary = 0x80, upperBoundary = 0xBF\<rparr> b3 = (utf8Init, unitsOf cp)"
    using r3 v by (simp add: utf8Step_def Let_def)
  show ?thesis unfolding bytes using r1 r2 r3 s1 s2 s3 by (simp add: unat_of_nat_byte)
qed


lemma decode1:
  assumes "cp < 0x80"
  shows "utf8DecodeFrom utf8Init (utf8Bytes cp @ rest) = unitsOf cp @ utf8DecodeFrom utf8Init rest"
proof -
  have "cp < 256" using assms by simp
  then show ?thesis using assms
    by (simp add: utf8Bytes_def unat_of_nat_byte utf8Step_def utf8Start_def unitsOf_def utf8Init_def)
qed

lemma decode2:
  assumes "0x80 \<le> cp" "cp < 0x800"
  shows "utf8DecodeFrom utf8Init (utf8Bytes cp @ rest) = unitsOf cp @ utf8DecodeFrom utf8Init rest"
proof -
  define a where "a = cp div 64"
  define c where "c = cp mod 64"
  have d: "cp = 64 * a + c" "c < 64" unfolding a_def c_def by simp_all
  define b1 where "b1 = 0xC0 + a"
  define b2 where "b2 = 0x80 + c"
  have r1: "0xC2 \<le> b1" "b1 \<le> 0xDF" "b1 < 256" "\<not> b1 < 0x80"
    using assms d unfolding b1_def by linarith+
  have r2: "0x80 \<le> b2" "b2 \<le> 0xBF" "b2 < 256" using d(2) unfolding b2_def by linarith+
  have v: "(b1 - 0xC0) * 64 + (b2 - 0x80) = cp" unfolding b1_def b2_def d(1) by simp
  have bytes: "utf8Bytes cp = [of_nat b1, of_nat b2]"
    using assms by (simp add: utf8Bytes_def b1_def b2_def a_def c_def)
  have s1: "utf8Step utf8Init b1 = (\<lparr>codePoint = b1 - 0xC0, bytesNeeded = 1, bytesSeen = 0,
          lowerBoundary = 0x80, upperBoundary = 0xBF\<rparr>, [])"
    using r1 by (simp add: utf8Step_def utf8Start_def utf8Init_def)
  have s2: "utf8Step \<lparr>codePoint = b1 - 0xC0, bytesNeeded = 1, bytesSeen = 0,
          lowerBoundary = 0x80, upperBoundary = 0xBF\<rparr> b2 = (utf8Init, unitsOf cp)"
    using r2 v by (simp add: utf8Step_def Let_def)
  show ?thesis unfolding bytes using r1 r2 s1 s2 by (simp add: unat_of_nat_byte)
qed

lemma decode4:
  assumes "0x10000 \<le> cp" "cp < 0x110000"
  shows "utf8DecodeFrom utf8Init (utf8Bytes cp @ rest) = unitsOf cp @ utf8DecodeFrom utf8Init rest"
proof -
  obtain a b c d where d: "cp = 262144 * a + 4096 * b + 64 * c + d" "b < 64" "c < 64" "d < 64"
    "cp div 262144 = a" "cp div 4096 mod 64 = b" "cp div 64 mod 64 = c" "cp mod 64 = d"
    by (rule digits4)
  define b1 where "b1 = 0xF0 + a"
  define b2 where "b2 = 0x80 + b"
  define b3 where "b3 = 0x80 + c"
  define b4 where "b4 = 0x80 + d"
  define lo where "lo = (if b1 = 0xF0 then 0x90 else (0x80::nat))"
  define hi where "hi = (if b1 = 0xF4 then 0x8F else (0xBF::nat))"
  have r1: "0xF0 \<le> b1" "b1 \<le> 0xF4" "b1 < 256" "\<not> b1 < 0x80" "\<not> b1 \<le> 0xDF"
      "\<not> b1 \<le> 0xEF"
    using assms d(1,2,3,4) unfolding b1_def by linarith+
  have r2: "\<not> b2 < lo" "\<not> hi < b2" "b2 < 256" "0x80 \<le> b2"
    using assms d(1,2,3,4) unfolding b1_def b2_def lo_def hi_def by (auto split: if_splits)
  have r3: "0x80 \<le> b3" "b3 \<le> 0xBF" "b3 < 256" using d(3) unfolding b3_def by linarith+
  have r4: "0x80 \<le> b4" "b4 \<le> 0xBF" "b4 < 256" using d(4) unfolding b4_def by linarith+
  have v: "(((b1 - 0xF0) * 64 + (b2 - 0x80)) * 64 + (b3 - 0x80)) * 64 + (b4 - 0x80) = cp"
    unfolding b1_def b2_def b3_def b4_def d(1) by simp
  have bytes: "utf8Bytes cp = [of_nat b1, of_nat b2, of_nat b3, of_nat b4]"
    using assms d(5,6,7,8) by (simp add: utf8Bytes_def b1_def b2_def b3_def b4_def)
  have s1: "utf8Step utf8Init b1 = (\<lparr>codePoint = b1 - 0xF0, bytesNeeded = 3, bytesSeen = 0,
          lowerBoundary = lo, upperBoundary = hi\<rparr>, [])"
    using r1 by (simp add: utf8Step_def utf8Start_def utf8Init_def lo_def hi_def)
  have s2: "utf8Step \<lparr>codePoint = b1 - 0xF0, bytesNeeded = 3, bytesSeen = 0,
          lowerBoundary = lo, upperBoundary = hi\<rparr> b2
      = (\<lparr>codePoint = (b1 - 0xF0) * 64 + (b2 - 0x80), bytesNeeded = 3, bytesSeen = 1,
          lowerBoundary = 0x80, upperBoundary = 0xBF\<rparr>, [])"
    using r2 by (simp add: utf8Step_def Let_def)
  have s3: "utf8Step \<lparr>codePoint = (b1 - 0xF0) * 64 + (b2 - 0x80), bytesNeeded = 3, bytesSeen = 1,
          lowerBoundary = 0x80, upperBoundary = 0xBF\<rparr> b3
      = (\<lparr>codePoint = ((b1 - 0xF0) * 64 + (b2 - 0x80)) * 64 + (b3 - 0x80), bytesNeeded = 3,
          bytesSeen = 2, lowerBoundary = 0x80, upperBoundary = 0xBF\<rparr>, [])"
    using r3 by (simp add: utf8Step_def Let_def)
  have s4: "utf8Step \<lparr>codePoint = ((b1 - 0xF0) * 64 + (b2 - 0x80)) * 64 + (b3 - 0x80),
          bytesNeeded = 3, bytesSeen = 2, lowerBoundary = 0x80, upperBoundary = 0xBF\<rparr> b4
      = (utf8Init, unitsOf cp)"
    using r4 v by (simp add: utf8Step_def Let_def)
  show ?thesis unfolding bytes using r1 r2 r3 r4 s1 s2 s3 s4 by (simp add: unat_of_nat_byte)
qed

lemma decode_scalar:
  assumes "cp < 0x110000" "cp < 0xD800 \<or> 0xDFFF < cp"
  shows "utf8DecodeFrom utf8Init (utf8Bytes cp @ rest) = unitsOf cp @ utf8DecodeFrom utf8Init rest"
proof -
  consider "cp < 0x80" | "0x80 \<le> cp \<and> cp < 0x800" | "0x800 \<le> cp \<and> cp < 0x10000"
    | "0x10000 \<le> cp" by linarith
  then show ?thesis using assms decode1 decode2 decode3 decode4 by cases blast+
qed

lemma surrogate_ranges:
  "isHighSurrogate c \<longleftrightarrow> 0xD800 \<le> unat c \<and> unat c \<le> 0xDBFF"
  "isLowSurrogate c \<longleftrightarrow> 0xDC00 \<le> unat c \<and> unat c \<le> 0xDFFF"
  by (simp_all add: isHighSurrogate_def isLowSurrogate_def word_le_nat_alt)

lemma unat_unit_bound: "unat (c :: unit16) < 65536"
  using unsigned_less[of c, where 'a = nat] by simp

lemma unitsOf_unit: "unitsOf (unat (c :: unit16)) = [c]"
  using unat_unit_bound[of c] by (simp add: unitsOf_def)

lemma unitsOf_pair:
  assumes "isHighSurrogate h" "isLowSurrogate l"
  shows "unitsOf (0x10000 + (unat h - 0xD800) * 0x400 + (unat l - 0xDC00)) = [h, l]"
proof -
  define x where "x = unat h - 0xD800"
  define y where "y = unat l - 0xDC00"
  have b: "x < 0x400" "y < 0x400" "unat h = 0xD800 + x" "unat l = 0xDC00 + y"
    using assms unfolding x_def y_def surrogate_ranges by linarith+
  have "(x * 0x400 + y) div 0x400 = x" "(x * 0x400 + y) mod 0x400 = y" using b(2) by simp_all
  then have "unitsOf (0x10000 + x * 0x400 + y) = [of_nat (0xD800 + x), of_nat (0xDC00 + y)]"
    by (simp add: unitsOf_def add.assoc)
  also have "\<dots> = [h, l]" using b(3,4) by (metis of_nat_unat ucast_id)
  finally show ?thesis unfolding x_def y_def .
qed

lemma pair_scalar:
  assumes "isHighSurrogate h" "isLowSurrogate l"
  shows "0x10000 \<le> 0x10000 + (unat h - 0xD800) * 0x400 + (unat l - 0xDC00)"
    "0x10000 + (unat h - 0xD800) * 0x400 + (unat l - 0xDC00) < 0x110000"
  using assms unfolding surrogate_ranges by linarith+

lemma utf8_roundtrip: "wellFormed s \<Longrightarrow> utf8Decode (utf8Encode s) = s"
proof (induction s rule: wellFormed.induct)
  case 1
  show ?case by (simp add: utf8Decode_def utf8Init_def)
next
  case (2 c)
  then have "unat c < 0xD800 \<or> 0xDFFF < unat c" unfolding wellFormed.simps surrogate_ranges by linarith
  from decode_scalar[OF _ this, of "[]"] unat_unit_bound[of c] 2 show ?case
    by (simp add: utf8Decode_def unitsOf_unit utf8Init_def)
next
  case (3 c d cs)
  show ?case
  proof (cases "isHighSurrogate c")
    case True
    with 3 have l: "isLowSurrogate d" and w: "wellFormed cs" by simp_all
    from 3(1)[OF True w] have ih: "utf8DecodeFrom utf8Init (utf8Encode cs) = cs"
      by (simp add: utf8Decode_def)
    from decode4[OF pair_scalar[OF True l]] unitsOf_pair[OF True l] ih True l show ?thesis
      by (simp add: utf8Decode_def)
  next
    case False
    with 3 have l: "\<not> isLowSurrogate c" and w: "wellFormed (d # cs)" by simp_all
    from 3(2)[OF False w] have ih: "utf8DecodeFrom utf8Init (utf8Encode (d # cs)) = d # cs"
      by (simp add: utf8Decode_def)
    have "unat c < 0xD800 \<or> 0xDFFF < unat c" using False l unfolding surrogate_ranges by linarith
    from decode_scalar[OF _ this] unat_unit_bound[of c] ih False l show ?thesis
      by (simp add: utf8Decode_def unitsOf_unit)
  qed
qed

lemma hexValue_hexDigit: "n < 16 \<Longrightarrow> hexValue (hexDigit n) = Some n"
proof -
  assume n: "n < 16"
  show ?thesis
  proof (cases "n < 10")
    case True
    then have u: "unat (of_nat (48 + n) :: unit16) = 48 + n" by (intro unat_of_nat_unit) simp
    have "(0x30 :: unit16) \<le> of_nat (48 + n)" "(of_nat (48 + n) :: unit16) \<le> 0x39"
      using True u by (simp_all add: word_le_nat_alt)
    then show ?thesis using True u by (simp add: hexValue_def hexDigit_def)
  next
    case False
    then have u: "unat (of_nat (87 + n) :: unit16) = 87 + n" using n by (intro unat_of_nat_unit) simp
    have "\<not> (of_nat (87 + n) :: unit16) \<le> 0x39" "(0x61 :: unit16) \<le> of_nat (87 + n)" "(of_nat (87 + n) :: unit16) \<le> 0x66"
      using False n u by (simp_all add: word_le_nat_alt)
    then show ?thesis using False u by (simp add: hexValue_def hexDigit_def)
  qed
qed

lemma hexDigit_not_colon: "n < 16 \<Longrightarrow> hexDigit n \<noteq> 0x3A"
proof
  assume n: "n < 16" and e: "hexDigit n = 0x3A"
  have "hexValue (0x3A :: unit16) = None" by (simp add: hexValue_def)
  with hexValue_hexDigit[OF n] e show False by simp
qed

lemma byte_nibbles: "of_nat (16 * (unat b div 16) + unat b mod 16) = (b :: byte)"
  by (simp add: mult_div_mod_eq)

lemma hexDecode_hexEncode: "hexDecode (hexEncode bs) = bs"
proof (induction bs)
  case Nil
  show ?case by (simp add: hexEncode_def)
next
  case (Cons b bs)
  have d: "unat b div 16 < 16" "unat b mod 16 < 16"
    proof -
    have "unat b < 256" using unsigned_less[of b, where 'a=nat] by simp
    then show "unat b div 16 < 16" "unat b mod 16 < 16" by simp_all
  qed
  have "hexEncode (b # bs) = hexDigit (unat b div 16) # hexDigit (unat b mod 16) # hexEncode bs"
    by (simp add: hexEncode_def)
  then show ?case using Cons hexValue_hexDigit[OF d(1)] hexValue_hexDigit[OF d(2)] byte_nibbles[of b]
    by simp
qed

lemma colon_not_in_hex: "0x3A \<notin> set (hexEncode bs)"
proof (induction bs)
  case Nil
  show ?case by (simp add: hexEncode_def)
next
  case (Cons b bs)
  have d: "unat b div 16 < 16" "unat b mod 16 < 16"
    proof -
    have "unat b < 256" using unsigned_less[of b, where 'a=nat] by simp
    then show "unat b div 16 < 16" "unat b mod 16 < 16" by simp_all
  qed
  have "hexEncode (b # bs) = hexDigit (unat b div 16) # hexDigit (unat b mod 16) # hexEncode bs"
    by (simp add: hexEncode_def)
  then show ?case using Cons hexDigit_not_colon[OF d(1)] hexDigit_not_colon[OF d(2)] by auto
qed

lemma length_hexEncode: "length (hexEncode bs) = 2 * length bs"
  by (induction bs) (simp_all add: hexEncode_def)

lemma split_no_sep: "sep \<notin> set b \<Longrightarrow> split sep b = [b]"
  by (induction b) auto

lemma split_at_sep: "sep \<notin> set a \<Longrightarrow> split sep (a @ sep # b) = a # split sep b"
  by (induction a) auto

lemma split_encrypt:
  "split 0x3A (encrypt C iv text) = [hexEncode iv, hexEncode (encryptBlocks C iv (utf8Encode text))]"
  unfolding encrypt_def using split_at_sep[OF colon_not_in_hex] split_no_sep[OF colon_not_in_hex]
  by (simp add: lit_def)

lemma decrypt_encrypt:
  "length iv = 16 \<Longrightarrow>
   decrypt C (encrypt C iv text) =
     (case decryptBlocks C iv (encryptBlocks C iv (utf8Encode text)) of
        None \<Rightarrow> Inl (Error (lit ''bad decrypt''))
      | Some bytes \<Rightarrow> Inr (utf8Decode bytes))"
  unfolding decrypt_def split_encrypt by (simp add: hexDecode_hexEncode length_hexEncode)

lemma getSession_Inr: "\<exists>s. getSession C store uid = Inr s"
  by (auto simp: getSession_def split: option.splits sum.splits)

lemma getSession_fields:
  "getSession C store uid = Inr s \<Longrightarrow> store uid = Some data \<Longrightarrow>
     lastPrompt s = lastPrompt data \<and> linkedAt s = linkedAt data"
  by (auto simp: getSession_def split: option.splits sum.splits if_splits)


lemma hexEncode_inj: "hexEncode a = hexEncode b \<Longrightarrow> a = b"
  using hexDecode_hexEncode by metis

lemma encrypt_iv_prefix:
  assumes "encrypt C iv1 p = encrypt C iv2 q"
  shows "iv1 = iv2"
proof -
  from assms have "split 0x3A (encrypt C iv1 p) = split 0x3A (encrypt C iv2 q)" by simp
  then have "hexEncode iv1 = hexEncode iv2" by (simp add: split_encrypt)
  then show ?thesis by (rule hexEncode_inj)
qed


lemma saveSession_fields:
  "\<exists>d. saveSession C iv store uid s uid = Some d \<and> lastPrompt d = lastPrompt s \<and> linkedAt d = linkedAt s"
  by (auto simp: saveSession_def Let_def split: option.splits)

lemma saveSession_other: "u \<noteq> uid \<Longrightarrow> saveSession C iv store uid s u = store u"
  by (simp add: saveSession_def Let_def)

lemma updateSession_fields:
  assumes "updateSession C iv store uid upd = Inr (store', updated)"
      and "getSession C store uid = Inr before" and "getSession C store' uid = Inr after"
  shows "lastPrompt after = (case lastPromptUpdate upd of None \<Rightarrow> lastPrompt before | Some v \<Rightarrow> v)
       \<and> linkedAt after = (case linkedAtUpdate upd of None \<Rightarrow> linkedAt before | Some v \<Rightarrow> v)"
proof -
  from assms(1,2) have s: "store' = saveSession C iv store uid (merge before upd)"
    by (auto simp: updateSession_def Let_def)
  obtain d where d: "store' uid = Some d" "lastPrompt d = lastPrompt (merge before upd)"
      "linkedAt d = linkedAt (merge before upd)"
    using saveSession_fields[of C iv store uid "merge before upd"] s by auto
  from getSession_fields[OF assms(3) d(1)] d(2,3) show ?thesis by (simp add: merge_def)
qed

lemma updateSession_Inr: "\<exists>store' updated. updateSession C iv store uid upd = Inr (store', updated)"
  using getSession_Inr[of C store uid] by (auto simp: updateSession_def Let_def)

lemma updateSession_other:
  "updateSession C iv store uid upd = Inr (store', updated) \<Longrightarrow> u \<noteq> uid \<Longrightarrow> store' u = store u"
  by (auto simp: updateSession_def Let_def saveSession_other split: sum.splits)


lemma decrypt_encrypt_wellFormed:
  assumes "length iv = 16" and "wellFormed c"
      and "decryptBlocks C iv (encryptBlocks C iv (utf8Encode c)) = Some (utf8Encode c)"
  shows "decrypt C (encrypt C iv c) = Inr c"
  using decrypt_encrypt[OF assms(1), of C c] assms(2,3) by (simp add: utf8_roundtrip)

lemma save_then_get:
  assumes "c \<noteq> []" and "apiKey s = Some c" and "decrypt C (encrypt C iv c) = Inr c"
  shows "getSession C (saveSession C iv store uid s) uid = Inr s"
proof -
  have n: "encrypt C iv c \<noteq> []" by (simp add: encrypt_def lit_def)
  have r: "s\<lparr>apiKey := Some c\<rparr> = s" using assms(2) by (cases s) simp
  show ?thesis using assms n r by (simp add: getSession_def saveSession_def Let_def)
qed


lemma exampleCipher_inverts:
  "decryptBlocks exampleCipher iv (encryptBlocks exampleCipher iv p) = Some p"
  by (simp add: exampleCipher_def comp_def)


section \<open>Properties of the session store\<close>

text \<open>
  Claim C2, as the code has it. For a non-empty key without unpaired surrogates, and a
  block cipher that deciphers what it has just enciphered, the key read back after
  \<open>updateSession\<close> or \<open>setApiKey\<close> is the key that was stored, and \<open>decrypt\<close> inverts
  \<open>encrypt\<close>.
\<close>

theorem session_credential_roundtrip:
  assumes "c \<noteq> []" and "wellFormed c" and "length iv = 16"
      and "decryptBlocks C iv (encryptBlocks C iv (utf8Encode c)) = Some (utf8Encode c)"
  shows "(\<exists>store' updated s.
            updateSession C iv store uid
              \<lparr>apiKeyUpdate = Some (Some c), lastPromptUpdate = lp, linkedAtUpdate = la\<rparr>
              = Inr (store', updated)
            \<and> getSession C store' uid = Inr s \<and> apiKey s = Some c)
       \<and> (\<exists>store' s. setApiKey C iv now store uid c = Inr store'
            \<and> getSession C store' uid = Inr s \<and> apiKey s = Some c)
       \<and> decrypt C (encrypt C iv c) = Inr c"
proof -
  have d: "decrypt C (encrypt C iv c) = Inr c"
    using assms(3,2,4) by (rule decrypt_encrypt_wellFormed)
  have u: "\<exists>store' updated s.
           updateSession C iv store uid
             \<lparr>apiKeyUpdate = Some (Some c), lastPromptUpdate = l, linkedAtUpdate = a\<rparr>
             = Inr (store', updated)
         \<and> getSession C store' uid = Inr s \<and> apiKey s = Some c" for l a
  proof -
    obtain cur where cur: "getSession C store uid = Inr cur" using getSession_Inr by blast
    let ?m = "merge cur \<lparr>apiKeyUpdate = Some (Some c), lastPromptUpdate = l, linkedAtUpdate = a\<rparr>"
    have k: "apiKey ?m = Some c" by (simp add: merge_def)
    have "updateSession C iv store uid
             \<lparr>apiKeyUpdate = Some (Some c), lastPromptUpdate = l, linkedAtUpdate = a\<rparr>
             = Inr (saveSession C iv store uid ?m, ?m)"
      using cur by (simp add: updateSession_def Let_def)
    moreover have "getSession C (saveSession C iv store uid ?m) uid = Inr ?m"
      using assms(1) k d by (rule save_then_get)
    ultimately show ?thesis using k by blast
  qed
  have "\<exists>store' s. setApiKey C iv now store uid c = Inr store'
         \<and> getSession C store' uid = Inr s \<and> apiKey s = Some c"
    using u[of None "Some (Some now)"] by (auto simp: setApiKey_def)
  with u[of lp la] d show ?thesis by blast
qed


theorem session_credential_roundtrip_witness:
  "lit ''ep_k'' \<noteq> [] \<and> wellFormed (lit ''ep_k'') \<and> length (exampleIv 1) = 16
   \<and> decryptBlocks exampleCipher (exampleIv 1)
        (encryptBlocks exampleCipher (exampleIv 1) (utf8Encode (lit ''ep_k'')))
       = Some (utf8Encode (lit ''ep_k''))
   \<and> decrypt exampleCipher (encrypt exampleCipher (exampleIv 1) (lit ''ep_k'')) = Inr (lit ''ep_k'')
   \<and> (\<exists>store' s. setApiKey exampleCipher (exampleIv 1) (lit ''2024-05-01T10:00:00.000Z'')
                      Map.empty 7 (lit ''ep_k'') = Inr store'
         \<and> getSession exampleCipher store' 7 = Inr s \<and> apiKey s = Some (lit ''ep_k''))"
proof -
  have h1: "lit ''ep_k'' \<noteq> []" by (simp add: lit_def)
  have h2: "wellFormed (lit ''ep_k'')"
    by (simp add: lit_def isHighSurrogate_def isLowSurrogate_def)
  have h3: "length (exampleIv 1) = 16" by (simp add: exampleIv_def)
  have h4: "decryptBlocks exampleCipher (exampleIv 1)
        (encryptBlocks exampleCipher (exampleIv 1) (utf8Encode (lit ''ep_k'')))
       = Some (utf8Encode (lit ''ep_k''))" by (rule exampleCipher_inverts)
  from session_credential_roundtrip[OF h1 h2 h3 h4, of Map.empty 7 None None
      "lit ''2024-05-01T10:00:00.000Z''"] h1 h2 h3 h4
  show ?thesis by blast
qed


text \<open>
  The UTF-8 encoding replaces an unpaired surrogate by U+FFFD: the key made of the one
  code unit D800 does not come back.
\<close>

theorem session_roundtrip_counterexample:
  "apiKey (projr (getSession exampleCipher
       (fst (projr (updateSession exampleCipher (exampleIv 1) Map.empty 7
          \<lparr>apiKeyUpdate = Some (Some [0xD800]), lastPromptUpdate = None,
           linkedAtUpdate = None\<rparr>))) 7))
     = Some [0xFFFD]"
proof -
  have e: "utf8Encode [0xD800] = [0xEF, 0xBF, 0xBD]"
    by (simp add: utf8Bytes_def isHighSurrogate_def)
  have d: "utf8Decode [0xEF, 0xBF, 0xBD] = [0xFFFD]"
    by (simp add: utf8Decode_def utf8Step_def utf8Start_def utf8Init_def unitsOf_def Let_def)
  have l: "length (exampleIv 1) = 16" by (simp add: exampleIv_def)
  have r: "decrypt exampleCipher (encrypt exampleCipher (exampleIv 1) [0xD800]) = Inr [0xFFFD]"
    using decrypt_encrypt[OF l, of exampleCipher "[0xD800]"] exampleCipher_inverts e d by simp
  have n: "encrypt exampleCipher (exampleIv 1) [0xD800] \<noteq> []" by (simp add: encrypt_def lit_def)
  show ?thesis using r n
    by (simp add: updateSession_def getSession_def saveSession_def merge_def emptySession_def
          Let_def)
qed

text \<open>
  Claim C3. \<open>getSession\<close> always returns a session. For a user without a record it is the
  empty session. When the stored key is non-empty and \<open>decrypt\<close> throws, the session
  returned has no key and keeps \<open>lastPrompt\<close> and \<open>linkedAt\<close> as stored.
\<close>

theorem getSession_never_fails:
  "(\<exists>s. getSession C store uid = Inr s)
   \<and> (store uid = None \<longrightarrow> getSession C store uid = Inr emptySession)
   \<and> (store uid = Some data \<and> apiKey data = Some k \<and> k \<noteq> [] \<and> decrypt C k = Inl e \<longrightarrow>
        getSession C store uid
          = Inr \<lparr>apiKey = None, lastPrompt = lastPrompt data, linkedAt = linkedAt data\<rparr>)"
  using getSession_Inr[of C store uid] by (auto simp: getSession_def)

theorem getSession_never_fails_witness:
  "getSession exampleCipher Map.empty 7 = Inr emptySession
   \<and> decrypt exampleCipher (lit ''garbage'') = Inl (Error (lit ''Invalid initialization vector''))
   \<and> getSession exampleCipher
        [7 \<mapsto> \<lparr>apiKey = Some (lit ''garbage''), lastPrompt = Some (lit ''job tracker''),
                 linkedAt = Some (lit ''2024-05-01T10:00:00.000Z'')\<rparr>] 7
       = Inr \<lparr>apiKey = None, lastPrompt = Some (lit ''job tracker''),
              linkedAt = Some (lit ''2024-05-01T10:00:00.000Z'')\<rparr>"
proof -
  let ?d = "\<lparr>apiKey = Some (lit ''garbage''), lastPrompt = Some (lit ''job tracker''),
                 linkedAt = Some (lit ''2024-05-01T10:00:00.000Z'')\<rparr>"
  have d: "decrypt exampleCipher (lit ''garbage'') = Inl (Error (lit ''Invalid initialization vector''))"
    by (simp add: decrypt_def lit_def hexValue_def)
  have n: "lit ''garbage'' \<noteq> []" by (simp add: lit_def)
  have 1: "getSession exampleCipher Map.empty 7 = Inr emptySession"
    using getSession_never_fails[of exampleCipher Map.empty 7] by simp
  have 2: "getSession exampleCipher [7 \<mapsto> ?d] 7
       = Inr \<lparr>apiKey = None, lastPrompt = Some (lit ''job tracker''),
              linkedAt = Some (lit ''2024-05-01T10:00:00.000Z'')\<rparr>"
    using getSession_never_fails[of exampleCipher "[7 \<mapsto> ?d]" 7 ?d "lit ''garbage''"
        "Error (lit ''Invalid initialization vector'')"] d n by simp
  from 1 d 2 show ?thesis by blast
qed


text \<open>
  Claim C6. Two encryptions of one plaintext under different initialisation vectors give
  different texts. The text is the vector in hexadecimal, a colon, and the ciphertext
  in hexadecimal, and \<open>decrypt\<close> reads the vector back from the text itself.
\<close>

theorem encrypt_fresh_iv:
  "(iv1 \<noteq> iv2 \<longrightarrow> encrypt C iv1 p \<noteq> encrypt C iv2 p)
   \<and> split 0x3A (encrypt C iv1 p)
       = [hexEncode iv1, hexEncode (encryptBlocks C iv1 (utf8Encode p))]
   \<and> hexDecode (hexEncode iv1) = iv1
   \<and> (length iv1 = 16 \<longrightarrow>
        decrypt C (encrypt C iv1 p) =
          (case decryptBlocks C iv1 (encryptBlocks C iv1 (utf8Encode p)) of
             None \<Rightarrow> Inl (Error (lit ''bad decrypt''))
           | Some bytes \<Rightarrow> Inr (utf8Decode bytes)))"
  using encrypt_iv_prefix[of C iv1 p iv2 p] split_encrypt[of C iv1 p] hexDecode_hexEncode[of iv1]
    decrypt_encrypt[of iv1 C p] by blast

theorem encrypt_fresh_iv_witness:
  "exampleIv 1 \<noteq> exampleIv 2 \<and> length (exampleIv 1) = 16
   \<and> encrypt exampleCipher (exampleIv 1) (lit ''ep_k'') \<noteq> encrypt exampleCipher (exampleIv 2) (lit ''ep_k'')
   \<and> decrypt exampleCipher (encrypt exampleCipher (exampleIv 1) (lit ''ep_k'')) = Inr (lit ''ep_k'')"
proof -
  have h1: "exampleIv 1 \<noteq> exampleIv 2" by (simp add: exampleIv_def)
  have h2: "length (exampleIv 1) = 16" by (simp add: exampleIv_def)
  have e: "(case decryptBlocks exampleCipher (exampleIv 1)
                 (encryptBlocks exampleCipher (exampleIv 1) (utf8Encode (lit ''ep_k''))) of
             None \<Rightarrow> Inl (Error (lit ''bad decrypt''))
           | Some bytes \<Rightarrow> Inr (utf8Decode bytes)) = Inr (lit ''ep_k'')" by code_simp
  from encrypt_fresh_iv[of "exampleIv 1" "exampleIv 2" exampleCipher "lit ''ep_k''"] h1 h2 e
  show ?thesis by simp
qed

text \<open>
  Claim C9, as the code has it. Every \<open>setApiKey\<close> stamps \<open>linkedAt\<close> with the time of
  the call, whatever was there before; \<open>setLastPrompt\<close> leaves it as it was.
\<close>

theorem linkedAt_follows_setApiKey:
  "(\<exists>store'. setApiKey C iv now store uid key = Inr store'
        \<and> (\<exists>s. getSession C store' uid = Inr s \<and> linkedAt s = Some now))
   \<and> (\<exists>store'. setLastPrompt C iv store uid prompt = Inr store'
        \<and> (\<exists>s0 s. getSession C store uid = Inr s0 \<and> getSession C store' uid = Inr s
                   \<and> linkedAt s = linkedAt s0))"
proof -
  let ?u1 = "\<lparr>apiKeyUpdate = Some (Some key), lastPromptUpdate = None, linkedAtUpdate = Some (Some now)\<rparr>"
  let ?u2 = "\<lparr>apiKeyUpdate = None, lastPromptUpdate = Some (Some prompt), linkedAtUpdate = None\<rparr>"
  obtain s0 where s0: "getSession C store uid = Inr s0" using getSession_Inr by blast
  obtain st1 up1 where 1: "updateSession C iv store uid ?u1 = Inr (st1, up1)"
    using updateSession_Inr by blast
  obtain s1 where s1: "getSession C st1 uid = Inr s1" using getSession_Inr by blast
  obtain st2 up2 where 2: "updateSession C iv store uid ?u2 = Inr (st2, up2)"
    using updateSession_Inr by blast
  obtain s2 where s2: "getSession C st2 uid = Inr s2" using getSession_Inr by blast
  from updateSession_fields[OF 1 s0 s1] have a: "linkedAt s1 = Some now" by simp
  from updateSession_fields[OF 2 s0 s2] have b: "linkedAt s2 = linkedAt s0" by simp
  have "setApiKey C iv now store uid key = Inr st1" using 1 by (simp add: setApiKey_def)
  moreover have "setLastPrompt C iv store uid prompt = Inr st2" using 2 by (simp add: setLastPrompt_def)
  ultimately show ?thesis using s0 s1 s2 a b by auto
qed


text \<open>
  A second key, accepted later, replaces the time of the first: \<open>linkedAt\<close> is not set
  once.
\<close>

theorem linkedAt_set_once_counterexample:
  "linkedAt (projr (getSession exampleCipher
       (projr (setApiKey exampleCipher (exampleIv 1) (lit ''2024-05-01T10:00:00.000Z'') Map.empty 7
                 (lit ''ep_first''))) 7))
     = Some (lit ''2024-05-01T10:00:00.000Z'')
   \<and> linkedAt (projr (getSession exampleCipher
       (projr (setApiKey exampleCipher (exampleIv 2) (lit ''2024-06-30T08:30:00.000Z'')
          (projr (setApiKey exampleCipher (exampleIv 1) (lit ''2024-05-01T10:00:00.000Z'') Map.empty 7
                 (lit ''ep_first''))) 7 (lit ''ep_second''))) 7))
     = Some (lit ''2024-06-30T08:30:00.000Z'')"
  by code_simp

section \<open>The handlers: auxiliary facts\<close>













































section \<open>Properties of the handlers\<close>













end
